theory Spec2Isabelle
  imports Complex_Main
begin

section \<open>The skid-steer PID simulator of \<^verbatim>\<open>pid_sim_streamlit.py\<close>\<close>

text \<open>
  The class \<^verbatim>\<open>SkidSteerPIDSimulator\<close> is embedded as a record that is passed through
  every method and returned updated. Python's floats are read as the real numbers (no
  rounding, no infinities, no NaN), with one exception: the addition inside \<^verbatim>\<open>x % 360\<close>
  is rounded to the nearest double, because that rounding decides whether the
  normalised heading can be 360 itself. The division by \<^verbatim>\<open>self.dt\<close> raises
  \<^verbatim>\<open>ZeroDivisionError\<close> on a zero step and that raise is a branch of the model. The
  wall clock \<^verbatim>\<open>time.time()\<close> is an argument \<open>now\<close> of the methods that read it. The
  Streamlit calls (\<^verbatim>\<open>st.success\<close>, the widgets and the charts) have no effect on the
  simulator object and are left out.
\<close>

subsection \<open>State\<close>

datatype py_error = ZeroDivisionError

record simulator =
  current_heading :: real
  integral :: real
  prev_error :: real
  start_time :: real
  simulation_running :: bool
  dt :: real
  time_series :: "real list"
  error_series :: "real list"
  output_series :: "real list"
  heading_series :: "real list"
  desired_series :: "real list"
  max_turn_rate :: real
  vehicle_width :: real
  kp :: real
  ki :: real
  kd :: real
  desired_heading :: real

text \<open>\<^verbatim>\<open>__init__\<close> (lines 10-36); \<open>now\<close> is the value of \<^verbatim>\<open>time.time()\<close>.\<close>

definition init :: "real \<Rightarrow> simulator" where
  "init now =
     \<lparr> current_heading = 0, integral = 0, prev_error = 0, start_time = now,
       simulation_running = True, dt = 1 / 10,
       time_series = [], error_series = [], output_series = [],
       heading_series = [], desired_series = [],
       max_turn_rate = 45, vehicle_width = 2,
       kp = 1, ki = 0, kd = 1 / 10, desired_heading = 90 \<rparr>"

subsection \<open>Angle wrapping\<close>

text \<open>\<^verbatim>\<open>while error > 180: error -= 360\<close> (lines 44-45, 67, 233).\<close>

function wrap_above :: "real \<Rightarrow> real" where
  "wrap_above e = (if e > 180 then wrap_above (e - 360) else e)"
  by pat_completeness auto
termination
proof (relation "measure (\<lambda>e. nat \<lceil>e / 360\<rceil>)")
  show "wf (measure (\<lambda>e::real. nat \<lceil>e / 360\<rceil>))" by simp
next
  fix e :: real
  assume "180 < e"
  then have pos: "0 < \<lceil>e / 360\<rceil>" by (simp add: less_ceiling_iff)
  have "(e - 360) / 360 = e / 360 - 1" by (simp add: diff_divide_distrib)
  then have "\<lceil>(e - 360) / 360\<rceil> = \<lceil>e / 360\<rceil> - 1" by (simp only: ceiling_diff_one)
  with pos have "nat \<lceil>(e - 360) / 360\<rceil> < nat \<lceil>e / 360\<rceil>" by linarith
  then show "(e - 360, e) \<in> measure (\<lambda>e. nat \<lceil>e / 360\<rceil>)" by (simp only: in_measure)
qed

text \<open>\<^verbatim>\<open>while error < -180: error += 360\<close> (lines 46-47, 68, 234).\<close>

function wrap_below :: "real \<Rightarrow> real" where
  "wrap_below e = (if e < - 180 then wrap_below (e + 360) else e)"
  by pat_completeness auto
termination
proof (relation "measure (\<lambda>e. nat \<lceil>- e / 360\<rceil>)")
  show "wf (measure (\<lambda>e::real. nat \<lceil>- e / 360\<rceil>))" by simp
next
  fix e :: real
  assume "e < - 180"
  then have pos: "0 < \<lceil>- e / 360\<rceil>" by (simp add: less_ceiling_iff)
  have "- (e + 360) / 360 = - e / 360 - 1" by (simp add: diff_divide_distrib add_divide_distrib)
  then have "\<lceil>- (e + 360) / 360\<rceil> = \<lceil>- e / 360\<rceil> - 1" by (simp only: ceiling_diff_one)
  with pos have "nat \<lceil>- (e + 360) / 360\<rceil> < nat \<lceil>- e / 360\<rceil>" by linarith
  then show "(e + 360, e) \<in> measure (\<lambda>e. nat \<lceil>- e / 360\<rceil>)" by (simp only: in_measure)
qed

declare wrap_above.simps [simp del] wrap_below.simps [simp del]

text \<open>
  The error of the control law: the difference \<^verbatim>\<open>desired_heading - current_heading\<close>
  followed by the two loops, as written at lines 41-47, 66-68 and 232-234.
\<close>

definition compute_error :: "real \<Rightarrow> real \<Rightarrow> real" where
  "compute_error current desired = wrap_below (wrap_above (desired - current))"

subsection \<open>The PID step\<close>

text \<open>
  \<^verbatim>\<open>calculate_pid_output\<close> (lines 38-60). The integral is written before the division
  that may raise.
\<close>

definition calculate_pid_output :: "simulator \<Rightarrow> py_error + ((real \<times> real) \<times> simulator)" where
  "calculate_pid_output s =
     (let error = compute_error (current_heading s) (desired_heading s);
          s1 = s\<lparr>integral := integral s + error * dt s\<rparr>
      in if dt s1 = 0 then Inl ZeroDivisionError
         else
           let derivative = (error - prev_error s1) / dt s1;
               output = kp s1 * error + ki s1 * integral s1 + kd s1 * derivative;
               output = max (- max_turn_rate s1) (min (max_turn_rate s1) output)
           in Inr ((output, error), s1\<lparr>prev_error := error\<rparr>))"

text \<open>
  Python's \<^verbatim>\<open>x % y\<close> on floats, for a divisor \<open>y \<noteq> 0\<close> (the source only divides by
  the literal 360). CPython computes it as
  \<^verbatim>\<open>mod = fmod(x, y); if mod and ((y < 0) != (mod < 0)): mod += y\<close>.
  The C function \<^verbatim>\<open>fmod\<close> is exact: its result has the sign of \<open>x\<close> and a magnitude
  below that of \<open>y\<close>. The addition \<^verbatim>\<open>mod += y\<close> is a double addition and is rounded:
  for a small negative \<open>x\<close> the sum \<open>x + 360\<close> is nearer to 360 than to the double
  below it, and the result is 360.

  \<open>round_double\<close> is rounding to the nearest double, ties to even: \<open>binade x\<close> is the
  exponent \<open>e\<close> with \<open>2^e \<le> |x| < 2^(e+1)\<close>, doubles in that binade are the
  multiples of \<open>2^(e-52)\<close>, and below \<open>2^(-1022)\<close> the spacing stays \<open>2^(-1074)\<close>.
  Overflow is left out: the sums rounded here are below 360 in magnitude.
\<close>

definition round_even :: "real \<Rightarrow> int" where
  "round_even q =
     (let f = \<lfloor>q\<rfloor>; r = q - of_int f
      in if r < 1 / 2 then f
         else if 1 / 2 < r then f + 1
         else if even f then f else f + 1)"

function expo_ge :: "real \<Rightarrow> int" where
  "expo_ge x = (if 2 \<le> x then expo_ge (x / 2) + 1 else 0)"
  by pat_completeness auto
termination
proof (relation "measure (\<lambda>x. nat \<lceil>x\<rceil>)")
  show "wf (measure (\<lambda>x::real. nat \<lceil>x\<rceil>))" by simp
next
  fix x :: real
  assume "2 \<le> x"
  then have "x / 2 \<le> x - 1" by simp
  then have "\<lceil>x / 2\<rceil> \<le> \<lceil>x - 1\<rceil>" by (rule ceiling_mono)
  moreover from \<open>2 \<le> x\<close> have "0 < \<lceil>x\<rceil>" by (simp add: less_ceiling_iff)
  ultimately have "nat \<lceil>x / 2\<rceil> < nat \<lceil>x\<rceil>" by simp
  then show "(x / 2, x) \<in> measure (\<lambda>x. nat \<lceil>x\<rceil>)" by (simp only: in_measure)
qed

function expo_lt :: "real \<Rightarrow> int" where
  "expo_lt x = (if 0 < x \<and> x < 1 then expo_lt (2 * x) - 1 else 0)"
  by pat_completeness auto
termination
proof (relation "measure (\<lambda>x. nat \<lceil>1 / x\<rceil>)")
  show "wf (measure (\<lambda>x::real. nat \<lceil>1 / x\<rceil>))" by simp
next
  fix x :: real
  assume a: "0 < x \<and> x < 1"
  then have one: "1 < 1 / x" by simp
  then have two: "2 \<le> \<lceil>1 / x\<rceil>" by linarith
  have "1 / (2 * x) = (1 / x) / 2" by simp
  also have "\<dots> \<le> of_int \<lceil>1 / x\<rceil> / 2" by (simp add: divide_right_mono)
  also from two have "\<dots> \<le> of_int (\<lceil>1 / x\<rceil> - 1)" by simp
  finally have "\<lceil>1 / (2 * x)\<rceil> \<le> \<lceil>1 / x\<rceil> - 1" by (simp only: ceiling_le_iff)
  with two have "nat \<lceil>1 / (2 * x)\<rceil> < nat \<lceil>1 / x\<rceil>" by linarith
  then show "(2 * x, x) \<in> measure (\<lambda>x. nat \<lceil>1 / x\<rceil>)" by (simp only: in_measure)
qed

declare expo_ge.simps [simp del] expo_lt.simps [simp del]

definition binade :: "real \<Rightarrow> int" where
  "binade x = (if 1 \<le> \<bar>x\<bar> then expo_ge \<bar>x\<bar> else expo_lt \<bar>x\<bar>)"

definition round_double :: "real \<Rightarrow> real" where
  "round_double x =
     (if x = 0 then 0
      else let e = max (binade x) (- 1022); u = 2 powi (e - 52)
           in of_int (round_even (x / u)) * u)"

definition fmod :: "real \<Rightarrow> real \<Rightarrow> real" where
  "fmod x y = x - y * of_int (if 0 \<le> x / y then \<lfloor>x / y\<rfloor> else \<lceil>x / y\<rceil>)"

definition float_mod :: "real \<Rightarrow> real \<Rightarrow> real" where
  "float_mod x y =
     (let m = fmod x y
      in if m \<noteq> 0 \<and> ((y < 0) \<noteq> (m < 0)) then round_double (m + y) else m)"

text \<open>Python's \<^verbatim>\<open>xs[-n:]\<close> for \<open>n > 0\<close>: the last \<open>n\<close> elements, or all of a shorter list.\<close>

definition last_n :: "nat \<Rightarrow> 'a list \<Rightarrow> 'a list" where
  "last_n n xs = drop (length xs - n) xs"

text \<open>\<^verbatim>\<open>update_simulation\<close> (lines 62-98).\<close>

definition update_simulation :: "real \<Rightarrow> simulator \<Rightarrow> py_error + ((real \<times> real) \<times> simulator)" where
  "update_simulation now s =
     (if \<not> simulation_running s then
        (let error = compute_error (current_heading s) (desired_heading s)
         in if dt s = 0 then Inl ZeroDivisionError
            else
              let output = kp s * error + ki s * integral s
                             + kd s * (error - prev_error s) / dt s;
                  output = max (- max_turn_rate s) (min (max_turn_rate s) output)
              in Inr ((output, error), s))
      else
        (case calculate_pid_output s of
           Inl e \<Rightarrow> Inl e
         | Inr ((output, error), s1) \<Rightarrow>
             let s2 = s1\<lparr>current_heading := current_heading s1 + output * dt s1\<rparr>;
                 s3 = s2\<lparr>current_heading := float_mod (current_heading s2) 360\<rparr>;
                 t = now - start_time s3;
                 s4 = s3\<lparr>time_series := time_series s3 @ [t],
                         error_series := error_series s3 @ [error],
                         output_series := output_series s3 @ [output],
                         heading_series := heading_series s3 @ [current_heading s3],
                         desired_series := desired_series s3 @ [desired_heading s3]\<rparr>;
                 s5 = (if length (time_series s4) > 500
                       then s4\<lparr>time_series := last_n 500 (time_series s4),
                               error_series := last_n 500 (error_series s4),
                               output_series := last_n 500 (output_series s4),
                               heading_series := last_n 500 (heading_series s4),
                               desired_series := last_n 500 (desired_series s4)\<rparr>
                       else s4)
             in Inr ((output, error), s5)))"

text \<open>\<^verbatim>\<open>reset_simulation\<close> (lines 100-114).\<close>

definition reset_simulation :: "real \<Rightarrow> simulator \<Rightarrow> simulator" where
  "reset_simulation now s =
     s\<lparr>current_heading := 0, integral := 0, prev_error := 0, start_time := now,
       time_series := [], error_series := [], output_series := [],
       heading_series := [], desired_series := []\<rparr>"

subsection \<open>The driver\<close>

text \<open>
  What \<^verbatim>\<open>main\<close> does to the simulator on each rerun: it writes the four slider values
  (lines 138-141), resets on the reset button (line 148), flips the running flag on the
  pause button (line 151) and calls \<^verbatim>\<open>update_simulation\<close> (line 164).
\<close>

definition set_parameters :: "real \<Rightarrow> real \<Rightarrow> real \<Rightarrow> real \<Rightarrow> simulator \<Rightarrow> simulator" where
  "set_parameters p i d h s = s\<lparr>kp := p, ki := i, kd := d, desired_heading := h\<rparr>"

definition toggle_pause :: "simulator \<Rightarrow> simulator" where
  "toggle_pause s = s\<lparr>simulation_running := \<not> simulation_running s\<rparr>"

datatype op = Tick real | Reset real | SetParameters real real real real | TogglePause

fun apply_op :: "op \<Rightarrow> simulator \<Rightarrow> py_error + ((real \<times> real) option \<times> simulator)" where
  "apply_op (Tick now) s =
     (case update_simulation now s of
        Inl e \<Rightarrow> Inl e
      | Inr (r, s') \<Rightarrow> Inr (Some r, s'))"
| "apply_op (Reset now) s = Inr (None, reset_simulation now s)"
| "apply_op (SetParameters p i d h) s = Inr (None, set_parameters p i d h s)"
| "apply_op TogglePause s = Inr (None, toggle_pause s)"

text \<open>A sequence of operations stops at the first exception, returning the results so far otherwise.\<close>

fun run_ops :: "op list \<Rightarrow> simulator \<Rightarrow> py_error + ((real \<times> real) option list \<times> simulator)" where
  "run_ops [] s = Inr ([], s)"
| "run_ops (x # xs) s =
     (case apply_op x s of
        Inl e \<Rightarrow> Inl e
      | Inr (r, s') \<Rightarrow>
          (case run_ops xs s' of
             Inl e \<Rightarrow> Inl e
           | Inr (rs, s'') \<Rightarrow> Inr (r # rs, s'')))"

text \<open>The states a simulator object can be in: a fresh one, and whatever the driver makes of it.\<close>

inductive reachable :: "simulator \<Rightarrow> bool" where
  fresh: "reachable (init now)"
| step: "reachable s \<Longrightarrow> apply_op x s = Inr (r, s') \<Longrightarrow> reachable s'"

subsection \<open>A state with a full history\<close>

text \<open>
  With all gains and the setpoint at zero, a fresh simulator ticked at time 0 stays at
  heading 0 and records zeros; \<open>quiet_state n\<close> is that simulator after \<open>n\<close> ticks
  (for \<open>n \<le> 500\<close>). It is the concrete state with 500 samples used below.
\<close>

definition quiet_state :: "nat \<Rightarrow> simulator" where
  "quiet_state n =
     (set_parameters 0 0 0 0 (init 0))
       \<lparr>time_series := replicate n 0, error_series := replicate n 0,
        output_series := replicate n 0, heading_series := replicate n 0,
        desired_series := replicate n 0\<rparr>"

subsection \<open>The state before a tick that stores 360\<close>

text \<open>
  The fields of the simulator object, as doubles, after one tick with the default
  parameters and four ticks with \<^verbatim>\<open>kp = 8.0\<close>, \<^verbatim>\<open>kd = 0.2\<close> and
  \<^verbatim>\<open>desired_heading = 0.0\<close> (slider values): the heading is the double
  \<^verbatim>\<open>0x1.70a3d70a3d70bp-3\<close> (0.18000000000000002), the integral
  \<^verbatim>\<open>0x1.0eb851eb851ecp+3\<close> (8.46), the previous error 0, and \<^verbatim>\<open>kd\<close> the double
  \<^verbatim>\<open>0x1.999999999999ap-3\<close> nearest to 0.2. The five series play no part in the
  heading and are left empty.
\<close>

definition overshoot_state :: simulator where
  "overshoot_state =
     (set_parameters 8 0 (7205759403792794 / 36028797018963968) 0 (init 0))
       \<lparr>current_heading := 6485183463413515 / 36028797018963968,
        integral := 4762556605944300 / 562949953421312,
        prev_error := 0\<rparr>"

section \<open>Properties\<close>

subsection \<open>Angle wrapping\<close>

lemma wrap_above_props:
  "wrap_above e \<le> 180 \<and> (e \<le> 180 \<longrightarrow> wrap_above e = e) \<and> (180 < e \<longrightarrow> - 180 < wrap_above e)"
proof (induction e rule: wrap_above.induct)
  case (1 e)
  show ?case
  proof (cases "180 < e")
    case True
    with 1 have ih: "wrap_above (e - 360) \<le> 180"
      "e - 360 \<le> 180 \<longrightarrow> wrap_above (e - 360) = e - 360"
      "180 < e - 360 \<longrightarrow> - 180 < wrap_above (e - 360)" by simp_all
    have eq: "wrap_above e = wrap_above (e - 360)"
      using True by (subst wrap_above.simps) simp
    from True ih show ?thesis unfolding eq by (cases "180 < e - 360") auto
  next
    case False
    then have "wrap_above e = e" by (subst wrap_above.simps) simp
    with False show ?thesis by simp
  qed
qed

lemma wrap_below_props:
  "- 180 \<le> wrap_below e \<and> (- 180 \<le> e \<longrightarrow> wrap_below e = e) \<and> (e < - 180 \<longrightarrow> wrap_below e < 180)"
proof (induction e rule: wrap_below.induct)
  case (1 e)
  show ?case
  proof (cases "e < - 180")
    case True
    with 1 have ih: "- 180 \<le> wrap_below (e + 360)"
      "- 180 \<le> e + 360 \<longrightarrow> wrap_below (e + 360) = e + 360"
      "e + 360 < - 180 \<longrightarrow> wrap_below (e + 360) < 180" by simp_all
    have eq: "wrap_below e = wrap_below (e + 360)"
      using True by (subst wrap_below.simps) simp
    from True ih show ?thesis unfolding eq by (cases "e + 360 < - 180") auto
  next
    case False
    then have "wrap_below e = e" by (subst wrap_below.simps) simp
    with False show ?thesis by simp
  qed
qed

lemma wrap_above_cong: "\<exists>k::int. wrap_above e = e - 360 * of_int k"
proof (induction e rule: wrap_above.induct)
  case (1 e)
  show ?case
  proof (cases "180 < e")
    case True
    with 1 obtain k :: int where k: "wrap_above (e - 360) = e - 360 - 360 * of_int k" by blast
    have "wrap_above e = wrap_above (e - 360)"
      using True by (subst wrap_above.simps) simp
    with k have "wrap_above e = e - 360 * of_int (k + 1)" by (simp add: algebra_simps)
    then show ?thesis by blast
  next
    case False
    then have "wrap_above e = e - 360 * of_int 0" by (subst wrap_above.simps) simp
    then show ?thesis by blast
  qed
qed

lemma wrap_below_cong: "\<exists>k::int. wrap_below e = e + 360 * of_int k"
proof (induction e rule: wrap_below.induct)
  case (1 e)
  show ?case
  proof (cases "e < - 180")
    case True
    with 1 obtain k :: int where k: "wrap_below (e + 360) = e + 360 + 360 * of_int k" by blast
    have "wrap_below e = wrap_below (e + 360)"
      using True by (subst wrap_below.simps) simp
    with k have "wrap_below e = e + 360 * of_int (k + 1)" by (simp add: algebra_simps)
    then show ?thesis by blast
  next
    case False
    then have "wrap_below e = e + 360 * of_int 0" by (subst wrap_below.simps) simp
    then show ?thesis by blast
  qed
qed

lemma compute_error_bounds:
  "- 180 \<le> compute_error c d \<and> compute_error c d \<le> 180"
  using wrap_above_props [of "d - c"] wrap_below_props [of "wrap_above (d - c)"]
  unfolding compute_error_def by auto

lemma wrap_below_lowest:
  "wrap_below e = - 180 \<longleftrightarrow> (\<exists>k::nat. e = - 180 - 360 * real k)"
proof (induction e rule: wrap_below.induct)
  case (1 e)
  show ?case
  proof (cases "e < - 180")
    case True
    have eq: "wrap_below e = wrap_below (e + 360)"
      using True by (subst wrap_below.simps) simp
    have "(\<exists>k::nat. e + 360 = - 180 - 360 * real k) \<longleftrightarrow> (\<exists>k::nat. e = - 180 - 360 * real k)"
    proof
      assume "\<exists>k::nat. e + 360 = - 180 - 360 * real k"
      then obtain k :: nat where "e + 360 = - 180 - 360 * real k" by blast
      then have "e = - 180 - 360 * real (Suc k)" by simp
      then show "\<exists>k::nat. e = - 180 - 360 * real k" by blast
    next
      assume "\<exists>k::nat. e = - 180 - 360 * real k"
      then obtain k :: nat where k: "e = - 180 - 360 * real k" by blast
      with True have "k \<noteq> 0" by auto
      then obtain j where "k = Suc j" by (cases k) auto
      with k have "e + 360 = - 180 - 360 * real j" by simp
      then show "\<exists>k::nat. e + 360 = - 180 - 360 * real k" by blast
    qed
    with 1 True eq show ?thesis by simp
  next
    case False
    then have eq: "wrap_below e = e" by (subst wrap_below.simps) simp
    show ?thesis
    proof
      assume "wrap_below e = - 180"
      with eq have "e = - 180 - 360 * real (0::nat)" by simp
      then show "\<exists>k::nat. e = - 180 - 360 * real k" by blast
    next
      assume "\<exists>k::nat. e = - 180 - 360 * real k"
      then obtain k :: nat where k: "e = - 180 - 360 * real k" by blast
      with False have "real k \<le> 0" by simp
      with k eq show "wrap_below e = - 180" by simp
    qed
  qed
qed

lemma compute_error_lowest:
  "compute_error c d = - 180 \<longleftrightarrow> (\<exists>k::nat. d - c = - 180 - 360 * real k)"
proof (cases "d - c \<le> 180")
  case True
  with wrap_above_props [of "d - c"] have "wrap_above (d - c) = d - c" by simp
  then show ?thesis by (simp add: compute_error_def wrap_below_lowest)
next
  case False
  with wrap_above_props [of "d - c"] have "- 180 < wrap_above (d - c)" by simp
  with wrap_below_props [of "wrap_above (d - c)"] have "compute_error c d \<noteq> - 180"
    by (simp add: compute_error_def)
  moreover have "\<not> (\<exists>k::nat. d - c = - 180 - 360 * real k)"
  proof
    assume "\<exists>k::nat. d - c = - 180 - 360 * real k"
    then obtain k :: nat where "d - c = - 180 - 360 * real k" by blast
    with False show False by simp
  qed
  ultimately show ?thesis by simp
qed

lemma compute_error_open:
  "- 180 < d - c \<Longrightarrow> - 180 < compute_error c d"
  using wrap_above_props [of "d - c"] wrap_below_props [of "wrap_above (d - c)"]
  unfolding compute_error_def by (cases "180 < d - c") auto

lemma compute_error_cong: "\<exists>k::int. compute_error c d = d - c + 360 * of_int k"
proof -
  obtain k :: int where k: "wrap_above (d - c) = d - c - 360 * of_int k"
    using wrap_above_cong by blast
  obtain j :: int where j: "wrap_below (wrap_above (d - c)) = wrap_above (d - c) + 360 * of_int j"
    using wrap_below_cong by blast
  have "compute_error c d = wrap_above (d - c) + 360 * of_int j"
    unfolding compute_error_def by (rule j)
  also have "\<dots> = d - c + 360 * of_int (j - k)"
    by (simp add: k algebra_simps)
  finally show ?thesis by blast
qed

subsection \<open>The rounded remainder\<close>

lemma expo_ge_nonneg: "0 \<le> expo_ge x"
proof (induction x rule: expo_ge.induct)
  case (1 x)
  then show ?case by (subst expo_ge.simps) simp
qed

lemma expo_ge_power: "1 \<le> x \<Longrightarrow> 2 ^ nat (expo_ge x) \<le> x"
proof (induction x rule: expo_ge.induct)
  case (1 x)
  show ?case
  proof (cases "2 \<le> x")
    case True
    then have "2 ^ nat (expo_ge (x / 2)) \<le> x / 2" using 1 by simp
    moreover have "expo_ge x = expo_ge (x / 2) + 1"
      using True by (subst expo_ge.simps) simp
    ultimately show ?thesis
      using expo_ge_nonneg [of "x / 2"] by (simp add: nat_add_distrib)
  next
    case False
    then have "expo_ge x = 0" by (subst expo_ge.simps) simp
    with 1 show ?thesis by simp
  qed
qed

lemma expo_lt_nonpos: "expo_lt x \<le> 0"
proof (induction x rule: expo_lt.induct)
  case (1 x)
  show ?case
  proof (cases "0 < x \<and> x < 1")
    case True
    with 1 have "expo_lt (2 * x) \<le> 0" by simp
    moreover have "expo_lt x = expo_lt (2 * x) - 1"
      using True by (subst expo_lt.simps) simp
    ultimately show ?thesis by simp
  next
    case False
    have "expo_lt x = 0" by (subst expo_lt.simps) (simp only: False if_False)
    then show ?thesis by simp
  qed
qed

lemma binade_le_8:
  assumes "\<bar>x\<bar> < 512"
  shows "binade x \<le> 8"
proof (cases "1 \<le> \<bar>x\<bar>")
  case True
  from expo_ge_power [OF True] assms have "(2::real) ^ nat (expo_ge \<bar>x\<bar>) < 2 ^ 9" by simp
  then have "nat (expo_ge \<bar>x\<bar>) < 9" by (simp only: power_strict_increasing_iff rel_simps)
  with True show ?thesis by (simp add: binade_def)
next
  case False
  with expo_lt_nonpos [of "\<bar>x\<bar>"] show ?thesis by (simp add: binade_def)
qed

lemma round_even_nonneg: "0 \<le> q \<Longrightarrow> 0 \<le> round_even q"
  by (auto simp: round_even_def Let_def)

lemma round_even_le: "q \<le> of_int n \<Longrightarrow> round_even q \<le> n"
proof -
  assume a: "q \<le> of_int n"
  show ?thesis
  proof (cases "q = of_int n")
    case True
    then show ?thesis by (simp add: round_even_def Let_def)
  next
    case False
    with a have "q < of_int n" by simp
    then have "\<lfloor>q\<rfloor> < n" by (simp add: floor_less_iff)
    then show ?thesis by (auto simp: round_even_def Let_def)
  qed
qed

lemma round_double_range:
  assumes "0 < v" "v < 360"
  shows "0 \<le> round_double v \<and> round_double v \<le> 360"
proof -
  define e where "e = max (binade v) (- 1022)"
  define u :: real where "u = 2 powi (e - 52)"
  from assms have "\<bar>v\<bar> < 512" by simp
  from binade_le_8 [OF this] have e: "e \<le> 8" by (simp add: e_def)
  have u: "0 < u" by (simp add: u_def)
  have rd: "round_double v = of_int (round_even (v / u)) * u"
    using assms by (simp add: round_double_def Let_def e_def u_def)
  define n :: int where "n = 360 * 2 ^ nat (52 - e)"
  have "(2::real) powi (e - 52) = 1 / 2 ^ nat (52 - e)"
    using e by (simp add: power_int_def field_simps)
  then have nu: "of_int n * u = 360" by (simp add: n_def u_def)
  then have "v / u \<le> of_int n" using assms u by (simp add: field_simps)
  then have "round_even (v / u) \<le> n" by (rule round_even_le)
  then have "of_int (round_even (v / u)) * u \<le> of_int n * u"
    using u by (simp add: mult_right_mono)
  moreover have "0 \<le> round_even (v / u)"
    using assms u by (intro round_even_nonneg) simp
  ultimately show ?thesis using u nu by (simp add: rd)
qed

lemma float_mod_360: "0 \<le> float_mod x 360 \<and> float_mod x 360 \<le> 360"
proof (cases "0 \<le> x")
  case True
  then have f: "fmod x 360 = x - 360 * of_int \<lfloor>x / 360\<rfloor>" by (simp add: fmod_def)
  have a: "of_int \<lfloor>x / 360\<rfloor> \<le> x / 360" by linarith
  have b: "x / 360 < of_int \<lfloor>x / 360\<rfloor> + 1" by linarith
  from a b have "0 \<le> fmod x 360 \<and> fmod x 360 < 360" unfolding f by (simp add: field_simps)
  then show ?thesis by (simp add: float_mod_def Let_def)
next
  case False
  then have f: "fmod x 360 = x - 360 * of_int \<lceil>x / 360\<rceil>" by (simp add: fmod_def)
  have a: "x / 360 \<le> of_int \<lceil>x / 360\<rceil>" by linarith
  have b: "of_int \<lceil>x / 360\<rceil> - 1 < x / 360" by linarith
  from a b have r: "- 360 < fmod x 360 \<and> fmod x 360 \<le> 0" unfolding f by linarith
  show ?thesis
  proof (cases "fmod x 360 = 0")
    case True
    then show ?thesis by (simp add: float_mod_def Let_def)
  next
    case False
    with r have "0 < fmod x 360 + 360" "fmod x 360 + 360 < 360" by simp_all
    from round_double_range [OF this] False r show ?thesis
      by (simp add: float_mod_def Let_def)
  qed
qed

subsection \<open>One tick, written out\<close>

lemma calculate_pid_output_ok:
  assumes "dt s \<noteq> 0"
  shows "calculate_pid_output s =
     Inr ((max (- max_turn_rate s) (min (max_turn_rate s)
             (kp s * compute_error (current_heading s) (desired_heading s)
               + ki s * (integral s + compute_error (current_heading s) (desired_heading s) * dt s)
               + kd s * ((compute_error (current_heading s) (desired_heading s) - prev_error s) / dt s))),
           compute_error (current_heading s) (desired_heading s)),
          s\<lparr>integral := integral s + compute_error (current_heading s) (desired_heading s) * dt s,
            prev_error := compute_error (current_heading s) (desired_heading s)\<rparr>)"
  using assms by (simp add: calculate_pid_output_def Let_def)

lemma update_simulation_running:
  assumes "simulation_running s" "dt s \<noteq> 0"
  defines "e \<equiv> compute_error (current_heading s) (desired_heading s)"
  defines "out \<equiv> max (- max_turn_rate s) (min (max_turn_rate s)
             (kp s * e + ki s * (integral s + e * dt s) + kd s * ((e - prev_error s) / dt s)))"
  defines "h \<equiv> float_mod (current_heading s + out * dt s) 360"
  defines "trim \<equiv> (\<lambda>xs::real list. if 500 \<le> length (time_series s) then last_n 500 xs else xs)"
  shows "update_simulation now s =
     Inr ((out, e),
          s\<lparr>integral := integral s + e * dt s, prev_error := e, current_heading := h,
            time_series := trim (time_series s @ [now - start_time s]),
            error_series := trim (error_series s @ [e]),
            output_series := trim (output_series s @ [out]),
            heading_series := trim (heading_series s @ [h]),
            desired_series := trim (desired_series s @ [desired_heading s])\<rparr>)"
proof -
  have c: "calculate_pid_output s = Inr ((out, e), s\<lparr>integral := integral s + e * dt s, prev_error := e\<rparr>)"
    unfolding out_def e_def by (rule calculate_pid_output_ok [OF assms(2)])
  show ?thesis
    unfolding update_simulation_def c h_def trim_def
    using assms(1) by (simp add: Let_def)
qed

lemma update_simulation_paused:
  assumes "\<not> simulation_running s" "dt s \<noteq> 0"
  shows "update_simulation now s =
     Inr ((max (- max_turn_rate s) (min (max_turn_rate s)
             (kp s * compute_error (current_heading s) (desired_heading s) + ki s * integral s
               + kd s * (compute_error (current_heading s) (desired_heading s) - prev_error s) / dt s)),
           compute_error (current_heading s) (desired_heading s)), s)"
  using assms by (simp add: update_simulation_def Let_def)

subsection \<open>Reachable states\<close>

lemma update_simulation_dt_zero: "dt s = 0 \<Longrightarrow> update_simulation now s = Inl ZeroDivisionError"
  by (simp add: update_simulation_def calculate_pid_output_def Let_def)

lemma length_last_n: "length (last_n n xs) = min n (length xs)"
  by (simp add: last_n_def)

lemma last_n_evict:
  assumes "length xs = n" "0 < n"
  shows "last_n n (xs @ [a]) = tl xs @ [a]"
proof -
  from assms have "xs \<noteq> []" by auto
  then show ?thesis using assms by (simp add: last_n_def drop_Suc)
qed

lemma reachable_invariant:
  assumes "reachable s"
  shows "dt s = 1 / 10 \<and> max_turn_rate s = 45
       \<and> 0 \<le> current_heading s \<and> current_heading s \<le> 360
       \<and> length (time_series s) \<le> 500
       \<and> length (error_series s) = length (time_series s)
       \<and> length (output_series s) = length (time_series s)
       \<and> length (heading_series s) = length (time_series s)
       \<and> length (desired_series s) = length (time_series s)"
  using assms
proof (induction rule: reachable.induct)
  case (fresh now)
  show ?case by (simp add: init_def)
next
  case (step s x r s')
  then have nz: "dt s \<noteq> 0" by simp
  show ?case
  proof (cases x)
    case (Tick now)
    show ?thesis
    proof (cases "simulation_running s")
      case True
      from step.hyps(2) have "s' = snd (projr (update_simulation now s))"
        unfolding Tick by (auto split: sum.splits)
      then show ?thesis
        using step.IH float_mod_360
        by (simp add: update_simulation_running [OF True nz] length_last_n)
    next
      case False
      from step.hyps(2) have "s' = s"
        unfolding Tick by (simp add: update_simulation_paused [OF False nz])
      with step.IH show ?thesis by simp
    qed
  next
    case (Reset now)
    with step.hyps(2) have "s' = reset_simulation now s" by simp
    with step.IH show ?thesis by (simp add: reset_simulation_def)
  next
    case (SetParameters p i d h)
    with step.hyps(2) have "s' = set_parameters p i d h s" by simp
    with step.IH show ?thesis by (simp add: set_parameters_def)
  next
    case TogglePause
    with step.hyps(2) have "s' = toggle_pause s" by simp
    with step.IH show ?thesis by (simp add: toggle_pause_def)
  qed
qed

lemma apply_op_reachable_total:
  assumes "reachable s"
  shows "\<exists>r s'. apply_op x s = Inr (r, s')"
proof -
  from reachable_invariant [OF assms] have nz: "dt s \<noteq> 0" by simp
  show ?thesis
  proof (cases x)
    case (Tick now)
    then show ?thesis
      using update_simulation_running [OF _ nz, of now] update_simulation_paused [OF _ nz, of now]
      by (cases "simulation_running s") simp_all
  qed simp_all
qed

lemma run_ops_reachable:
  "reachable s \<Longrightarrow> \<exists>rs s'. run_ops xs s = Inr (rs, s') \<and> reachable s'"
proof (induction xs arbitrary: s)
  case Nil
  then show ?case by simp
next
  case (Cons x xs)
  from apply_op_reachable_total [OF Cons.prems] obtain r s1
    where a: "apply_op x s = Inr (r, s1)" by blast
  with Cons.prems have "reachable s1" by (rule reachable.step)
  from Cons.IH [OF this] obtain rs s2
    where b: "run_ops xs s1 = Inr (rs, s2)" "reachable s2" by blast
  from a b show ?case by simp
qed

subsection \<open>The state with a full history is reachable\<close>

lemma compute_error_zero: "compute_error 0 0 = 0"
  by (simp add: compute_error_def wrap_above.simps wrap_below.simps)

lemma expo_ge_exact: "2 ^ n \<le> x \<Longrightarrow> x < 2 ^ Suc n \<Longrightarrow> expo_ge x = int n"
proof (induction n arbitrary: x)
  case 0
  then show ?case by (subst expo_ge.simps) simp
next
  case (Suc n)
  have "(1::real) \<le> 2 ^ n" by simp
  moreover from Suc.prems have "2 * 2 ^ n \<le> x" by simp
  ultimately have two: "2 \<le> x" by linarith
  from Suc.prems have "2 ^ n \<le> x / 2" "x / 2 < 2 ^ Suc n" by simp_all
  then have "expo_ge (x / 2) = int n" by (rule Suc.IH)
  moreover have "expo_ge x = expo_ge (x / 2) + 1"
    using two by (subst expo_ge.simps) simp
  ultimately show ?case by simp
qed

text \<open>
  Every real within half a spacing below 360 is rounded up to 360: in the binade of
  360 the doubles are \<open>2^(-44)\<close> apart, and 360 has an even significand.
\<close>

lemma round_double_up_to_360:
  assumes "360 - 1 / 2 ^ 45 \<le> v" and "v < 360"
  shows "round_double v = 360"
proof -
  from assms have "2 ^ 8 \<le> v" "v < 2 ^ Suc 8" by simp_all
  then have "expo_ge v = int 8" by (rule expo_ge_exact)
  with assms have b: "binade v = 8" by (simp add: binade_def)
  have u: "(2::real) powi (8 - 52) = 1 / 17592186044416" by (simp add: power_int_def field_simps)
  have lo: "6333186975989759 \<le> v * 17592186044416" using assms by simp
  have hi: "v * 17592186044416 < 6333186975989760" using assms by simp
  from lo hi have fl: "\<lfloor>v * 17592186044416\<rfloor> = 6333186975989759" by linarith
  have half: "1 / 2 \<le> v * 17592186044416 - 6333186975989759" using assms by simp
  have "round_even (v * 17592186044416) = 6333186975989760"
    using half by (simp add: round_even_def Let_def fl)
  with assms show ?thesis by (simp add: round_double_def Let_def b u)
qed

lemma float_mod_small_negative:
  assumes "- (1 / 2 ^ 45) \<le> x" and "x < 0"
  shows "float_mod x 360 = 360"
proof -
  from assms have "- 1 < x / 360" "x / 360 < 0" by simp_all
  then have "\<lceil>x / 360\<rceil> = 0" by linarith
  with assms have m: "fmod x 360 = x" by (simp add: fmod_def)
  from assms have "round_double (x + 360) = 360" by (intro round_double_up_to_360) simp_all
  with assms show ?thesis by (simp add: float_mod_def Let_def m)
qed

lemma float_mod_zero: "float_mod 0 360 = 0"
  by (simp add: float_mod_def fmod_def)

lemma quiet_state_tick:
  assumes "n < 500"
  shows "update_simulation 0 (quiet_state n) = Inr ((0, 0), quiet_state (Suc n))"
proof -
  have r: "simulation_running (quiet_state n)" and nz: "dt (quiet_state n) \<noteq> 0"
    by (simp_all add: quiet_state_def set_parameters_def init_def)
  show ?thesis
    unfolding update_simulation_running [OF r nz]
    using assms
    by (simp add: quiet_state_def set_parameters_def init_def compute_error_zero float_mod_zero
        replicate_append_same)
qed

lemma quiet_state_reachable: "n \<le> 500 \<Longrightarrow> reachable (quiet_state n)"
proof (induction n)
  case 0
  have "apply_op (SetParameters 0 0 0 0) (init 0) = Inr (None, quiet_state 0)"
    by (simp add: quiet_state_def set_parameters_def init_def)
  with reachable.fresh [of 0] show ?case by (rule reachable.step)
next
  case (Suc n)
  then have "reachable (quiet_state n)" and "n < 500" by simp_all
  moreover from \<open>n < 500\<close> have "apply_op (Tick 0) (quiet_state n) = Inr (Some (0, 0), quiet_state (Suc n))"
    by (simp add: quiet_state_tick)
  ultimately show ?case by (blast intro: reachable.step)
qed

subsection \<open>Paused ticks and the unused field\<close>

lemma paused_ticks_replicate:
  assumes "update_simulation now s = Inr (r, s)" and "\<And>t. update_simulation t s = update_simulation now s"
  shows "run_ops (map Tick ts) s = Inr (replicate (length ts) (Some r), s)"
  using assms by (induction ts) simp_all

lemma update_simulation_vehicle_width:
  "update_simulation now (s\<lparr>vehicle_width := w\<rparr>) =
     (case update_simulation now s of
        Inl e \<Rightarrow> Inl e
      | Inr (r, s') \<Rightarrow> Inr (r, s'\<lparr>vehicle_width := w\<rparr>))"
proof (cases "dt s = 0")
  case True
  then show ?thesis by (simp add: update_simulation_dt_zero)
next
  case nz: False
  then have nz': "dt (s\<lparr>vehicle_width := w\<rparr>) \<noteq> 0" by simp
  show ?thesis
  proof (cases "simulation_running s")
    case True
    then have r': "simulation_running (s\<lparr>vehicle_width := w\<rparr>)" by simp
    show ?thesis
      unfolding update_simulation_running [OF True nz] update_simulation_running [OF r' nz']
      by simp
  next
    case False
    then have p': "\<not> simulation_running (s\<lparr>vehicle_width := w\<rparr>)" by simp
    show ?thesis
      unfolding update_simulation_paused [OF False nz] update_simulation_paused [OF p' nz']
      by simp
  qed
qed

lemma apply_op_vehicle_width:
  "apply_op x (s\<lparr>vehicle_width := w\<rparr>) =
     (case apply_op x s of
        Inl e \<Rightarrow> Inl e
      | Inr (r, s') \<Rightarrow> Inr (r, s'\<lparr>vehicle_width := w\<rparr>))"
proof (cases x)
  case (Tick now)
  then show ?thesis
    by (simp add: update_simulation_vehicle_width split: sum.splits)
next
  case (Reset now)
  then show ?thesis by (simp add: reset_simulation_def)
next
  case (SetParameters p i d h)
  then show ?thesis by (simp add: set_parameters_def)
next
  case TogglePause
  then show ?thesis by (simp add: toggle_pause_def)
qed

subsection \<open>Claims\<close>

text \<open>
  C1. In every reachable state a call of \<^verbatim>\<open>update_simulation\<close>, running or paused,
  returns (it does not raise), and the output it returns lies between
  \<open>- max_turn_rate\<close> and \<open>max_turn_rate\<close>, which is 45.
\<close>

theorem tick_output_within_limit:
  assumes "reachable s"
  shows "\<exists>out err s'. update_simulation now s = Inr ((out, err), s')
           \<and> - max_turn_rate s \<le> out \<and> out \<le> max_turn_rate s \<and> max_turn_rate s = 45"
proof -
  from reachable_invariant [OF assms] have nz: "dt s \<noteq> 0" and m: "max_turn_rate s = 45"
    by simp_all
  show ?thesis
  proof (cases "simulation_running s")
    case True
    show ?thesis unfolding update_simulation_running [OF True nz] m by simp
  next
    case False
    show ?thesis unfolding update_simulation_paused [OF False nz] m by simp
  qed
qed

theorem tick_output_within_limit_witness:
  "reachable (init 0) \<and>
   (\<exists>out err s'. update_simulation 1 (init 0) = Inr ((out, err), s')
      \<and> - max_turn_rate (init 0) \<le> out \<and> out \<le> max_turn_rate (init 0)
      \<and> max_turn_rate (init 0) = 45)"
  using tick_output_within_limit [OF reachable.fresh [of 0], of 1] reachable.fresh [of 0]
  by simp

text \<open>
  C2, as stated, fails: the wrapped error is not always in the half-open interval
  \<open>(-180, 180]\<close>. For a current heading of 180 and a desired heading of 0 the
  difference is \<open>-180\<close>, the second loop tests \<open>error < -180\<close> and leaves it alone.
\<close>

theorem compute_error_half_open_counterexample:
  "\<not> (- 180 < compute_error 180 0 \<and> compute_error 180 0 \<le> 180)"
  by (simp add: compute_error_def wrap_above.simps wrap_below.simps)

text \<open>
  C2, amended. For all real current and desired headings the wrapped error lies in the
  closed interval \<open>[-180, 180]\<close>. It is \<open>-180\<close> exactly when the raw difference
  \<open>desired - current\<close> is \<open>-180 - 360 k\<close> for a natural number \<open>k\<close>; for every other
  input it lies in the half-open interval \<open>(-180, 180]\<close>.
\<close>

theorem compute_error_closed_interval:
  "- 180 \<le> compute_error current desired \<and> compute_error current desired \<le> 180
   \<and> (compute_error current desired = - 180
        \<longleftrightarrow> (\<exists>k::nat. desired - current = - 180 - 360 * real k))"
  using compute_error_bounds [of current desired] compute_error_lowest [of current desired]
  by simp

text \<open>
  Both loops at work: from 350 to 10 the raw difference \<open>-340\<close> is outside the class and
  is wrapped to 20; from 540 to 0 the raw difference \<open>-540 = -180 - 360\<close> is in the class
  and is wrapped to \<open>-180\<close>; from 0 to 540 the raw difference 540 is wrapped to 180.
\<close>

theorem compute_error_closed_interval_witness:
  "compute_error 350 10 = 20
   \<and> \<not> (\<exists>k::nat. (10::real) - 350 = - 180 - 360 * real k)
   \<and> compute_error 540 0 = - 180
   \<and> (\<exists>k::nat. (0::real) - 540 = - 180 - 360 * real k)
   \<and> compute_error 0 540 = 180"
proof -
  have a: "compute_error 350 10 = 20" "compute_error 540 0 = - 180" "compute_error 0 540 = 180"
    by (simp_all add: compute_error_def wrap_above.simps wrap_below.simps)
  from compute_error_closed_interval [of 350 10] a(1)
  have "\<not> (\<exists>k::nat. (10::real) - 350 = - 180 - 360 * real k)" by simp
  moreover from compute_error_closed_interval [of 540 0] a(2)
  have "\<exists>k::nat. (0::real) - 540 = - 180 - 360 * real k" by simp
  ultimately show ?thesis using a by blast
qed

text \<open>
  C3. For all real current and desired headings, the current heading plus the wrapped
  error differs from the desired heading by a multiple of 360; for a current heading
  of 350 and a desired heading of 10 the wrapped error is 20, not \<open>-340\<close>.
\<close>

theorem compute_error_congruent:
  "(\<exists>k::int. current + compute_error current desired = desired + 360 * of_int k)
   \<and> compute_error 350 10 = 20 \<and> compute_error 350 10 \<noteq> - 340"
proof -
  obtain k :: int where "compute_error current desired = desired - current + 360 * of_int k"
    using compute_error_cong by blast
  then have "current + compute_error current desired = desired + 360 * of_int k" by simp
  moreover have "compute_error 350 10 = 20"
    by (simp add: compute_error_def wrap_above.simps wrap_below.simps)
  ultimately show ?thesis by auto
qed

text \<open>
  C4 does not hold of the code. The remainder \<^verbatim>\<open>x % 360\<close> of a double is 360 itself
  when \<open>x\<close> is negative and within \<open>2^(-45)\<close> of 0: at \<open>x = -2^(-55)\<close>, the operand the
  code has at the failing tick, and from the state above, whose heading 0.18 is in
  \<open>[0, 360)\<close>, a running tick returns and stores the heading 360. Only the closed
  bound \<open>[0, 360]\<close> is an invariant of the reachable states.
\<close>

theorem tick_stores_heading_360:
  "float_mod (- 1 / 2 ^ 55) 360 = 360
   \<and> 0 \<le> current_heading overshoot_state \<and> current_heading overshoot_state < 360
   \<and> (\<exists>output error s'. update_simulation now overshoot_state = Inr ((output, error), s')
          \<and> current_heading s' = 360)"
proof -
  have r: "simulation_running overshoot_state" and nz: "dt overshoot_state \<noteq> 0"
    by (simp_all add: overshoot_state_def set_parameters_def init_def)
  have f: "kp overshoot_state = 8" "ki overshoot_state = 0"
    "kd overshoot_state = 7205759403792794 / 36028797018963968"
    "prev_error overshoot_state = 0" "max_turn_rate overshoot_state = 45"
    "dt overshoot_state = 1 / 10" "desired_heading overshoot_state = 0"
    "current_heading overshoot_state = 6485183463413515 / 36028797018963968"
    by (simp_all add: overshoot_state_def set_parameters_def init_def)
  have e: "compute_error (6485183463413515 / 36028797018963968) 0
             = - (6485183463413515 / 36028797018963968)"
    by (simp add: compute_error_def wrap_above.simps wrap_below.simps)
  have a: "float_mod (- 1 / 2 ^ 55) 360 = 360"
    by (rule float_mod_small_negative) simp_all
  have b: "float_mod
             (6485183463413515 / 36028797018963968
                + max (- 45) (min 45
                    (8 * - (6485183463413515 / 36028797018963968)
                       + 0 * (4762556605944300 / 562949953421312
                                + - (6485183463413515 / 36028797018963968) * (1 / 10))
                       + 7205759403792794 / 36028797018963968
                           * ((- (6485183463413515 / 36028797018963968) - 0) / (1 / 10))))
                  * (1 / 10)) 360 = 360"
    by (rule float_mod_small_negative) simp_all
  have i: "integral overshoot_state = 4762556605944300 / 562949953421312"
    by (simp add: overshoot_state_def set_parameters_def init_def)
  have "\<exists>output error s'. update_simulation now overshoot_state = Inr ((output, error), s')
          \<and> current_heading s' = 360"
    unfolding update_simulation_running [OF r nz] f e i b by simp
  with a f show ?thesis by simp
qed

text \<open>
  C5. While the running flag is false (and the time step is not zero, so that the
  division does not raise), \<^verbatim>\<open>update_simulation\<close> returns the state it was given,
  every field of it and so the heading, the integral, the previous error and the five
  series, together with the output and error computed from the stored heading, setpoint,
  gains, integral and previous error; any number of paused ticks in a row returns that
  same pair each time and the same state.
\<close>

theorem paused_tick_changes_nothing:
  assumes "\<not> simulation_running s" and "dt s \<noteq> 0"
  shows "let error = compute_error (current_heading s) (desired_heading s);
             output = max (- max_turn_rate s) (min (max_turn_rate s)
                        (kp s * error + ki s * integral s
                           + kd s * (error - prev_error s) / dt s))
         in update_simulation now s = Inr ((output, error), s)
            \<and> run_ops (map Tick ts) s = Inr (replicate (length ts) (Some (output, error)), s)"
proof -
  have "\<And>t. update_simulation t s = update_simulation now s"
    by (simp add: update_simulation_paused [OF assms])
  with update_simulation_paused [OF assms, of now] show ?thesis
    unfolding Let_def by (simp add: paused_ticks_replicate)
qed

theorem paused_tick_changes_nothing_witness:
  "\<not> simulation_running (toggle_pause (init 0)) \<and> dt (toggle_pause (init 0)) \<noteq> 0
   \<and> update_simulation 1 (toggle_pause (init 0)) = Inr ((45, 90), toggle_pause (init 0))
   \<and> run_ops (map Tick [1, 2, 3]) (toggle_pause (init 0))
       = Inr ([Some (45, 90), Some (45, 90), Some (45, 90)], toggle_pause (init 0))"
proof -
  have p: "\<not> simulation_running (toggle_pause (init 0))" and nz: "dt (toggle_pause (init 0)) \<noteq> 0"
    by (simp_all add: toggle_pause_def init_def)
  have e: "compute_error (current_heading (toggle_pause (init 0)))
             (desired_heading (toggle_pause (init 0))) = 90"
    by (simp add: toggle_pause_def init_def compute_error_def wrap_above.simps wrap_below.simps)
  have f: "kp (toggle_pause (init 0)) = 1" "ki (toggle_pause (init 0)) = 0"
    "kd (toggle_pause (init 0)) = 1 / 10" "prev_error (toggle_pause (init 0)) = 0"
    "integral (toggle_pause (init 0)) = 0" "max_turn_rate (toggle_pause (init 0)) = 45"
    "dt (toggle_pause (init 0)) = 1 / 10"
    by (simp_all add: toggle_pause_def init_def)
  have v: "max (- 45) (min 45 (1 * 90 + 0 * 0 + 1 / 10 * (90 - 0) / (1 / 10))) = (45::real)"
    by simp
  have l: "replicate (length [1, 2, 3::real]) (Some (45::real, 90::real))
             = [Some (45, 90), Some (45, 90), Some (45, 90)]"
    by (simp add: numeral_3_eq_3)
  note t = paused_tick_changes_nothing [OF p nz, of 1 "[1, 2, 3]", unfolded Let_def e f v l]
  from t p nz show ?thesis by blast
qed

text \<open>
  C6. In every reachable state the five series have one common length, at most 500.
  A running tick on a reachable state that holds 500 samples returns, drops the oldest
  sample of each series and appends the new one, so that the 500 most recent samples
  remain in their order.
\<close>

theorem history_capped_at_500:
  assumes "reachable s"
  shows "length (time_series s) \<le> 500
       \<and> length (error_series s) = length (time_series s)
       \<and> length (output_series s) = length (time_series s)
       \<and> length (heading_series s) = length (time_series s)
       \<and> length (desired_series s) = length (time_series s)
       \<and> (simulation_running s \<and> length (time_series s) = 500 \<longrightarrow>
            (\<exists>output error s'. update_simulation now s = Inr ((output, error), s')
               \<and> time_series s' = tl (time_series s) @ [now - start_time s]
               \<and> error_series s' = tl (error_series s) @ [error]
               \<and> output_series s' = tl (output_series s) @ [output]
               \<and> heading_series s' = tl (heading_series s) @ [current_heading s']
               \<and> desired_series s' = tl (desired_series s) @ [desired_heading s]
               \<and> length (time_series s') = 500))"
proof -
  note inv = reachable_invariant [OF assms]
  then have nz: "dt s \<noteq> 0" by simp
  have "\<exists>output error s'. update_simulation now s = Inr ((output, error), s')
               \<and> time_series s' = tl (time_series s) @ [now - start_time s]
               \<and> error_series s' = tl (error_series s) @ [error]
               \<and> output_series s' = tl (output_series s) @ [output]
               \<and> heading_series s' = tl (heading_series s) @ [current_heading s']
               \<and> desired_series s' = tl (desired_series s) @ [desired_heading s]
               \<and> length (time_series s') = 500"
    if r: "simulation_running s" and full: "length (time_series s) = 500"
  proof -
    from inv full have l: "length (error_series s) = 500" "length (output_series s) = 500"
      "length (heading_series s) = 500" "length (desired_series s) = 500" by simp_all
    show ?thesis
      unfolding update_simulation_running [OF r nz]
      using full l by (simp add: last_n_evict)
  qed
  with inv show ?thesis by blast
qed

theorem history_capped_at_500_witness:
  "reachable (quiet_state 500)
   \<and> length (time_series (quiet_state 500)) \<le> 500
   \<and> simulation_running (quiet_state 500) \<and> length (time_series (quiet_state 500)) = 500
   \<and> (\<exists>output error s'. update_simulation 7 (quiet_state 500) = Inr ((output, error), s')
         \<and> time_series s' = tl (time_series (quiet_state 500)) @ [7 - start_time (quiet_state 500)]
         \<and> error_series s' = tl (error_series (quiet_state 500)) @ [error]
         \<and> output_series s' = tl (output_series (quiet_state 500)) @ [output]
         \<and> heading_series s' = tl (heading_series (quiet_state 500)) @ [current_heading s']
         \<and> desired_series s' = tl (desired_series (quiet_state 500)) @ [desired_heading (quiet_state 500)]
         \<and> length (time_series s') = 500)"
proof -
  have r: "reachable (quiet_state 500)" by (rule quiet_state_reachable) simp
  have a: "simulation_running (quiet_state 500)" "length (time_series (quiet_state 500)) = 500"
    by (simp_all add: quiet_state_def set_parameters_def init_def)
  from history_capped_at_500 [OF r, of 7] r a show ?thesis by blast
qed

text \<open>
  C7. \<^verbatim>\<open>reset_simulation\<close> sets heading, integral and previous error to 0, empties
  the five series and sets the start time to the time of the call (the elapsed time
  \<open>now - start_time\<close> is then 0); gains, setpoint, running flag, time step, turn-rate
  limit and vehicle width keep their values. A second reset changes nothing more: the
  state after two resets is the state after one reset made at the time of the second.
\<close>

theorem reset_simulation_effect:
  "current_heading (reset_simulation now s) = 0
   \<and> integral (reset_simulation now s) = 0
   \<and> prev_error (reset_simulation now s) = 0
   \<and> time_series (reset_simulation now s) = []
   \<and> error_series (reset_simulation now s) = []
   \<and> output_series (reset_simulation now s) = []
   \<and> heading_series (reset_simulation now s) = []
   \<and> desired_series (reset_simulation now s) = []
   \<and> start_time (reset_simulation now s) = now
   \<and> now - start_time (reset_simulation now s) = 0
   \<and> kp (reset_simulation now s) = kp s
   \<and> ki (reset_simulation now s) = ki s
   \<and> kd (reset_simulation now s) = kd s
   \<and> desired_heading (reset_simulation now s) = desired_heading s
   \<and> simulation_running (reset_simulation now s) = simulation_running s
   \<and> dt (reset_simulation now s) = dt s
   \<and> max_turn_rate (reset_simulation now s) = max_turn_rate s
   \<and> vehicle_width (reset_simulation now s) = vehicle_width s
   \<and> reset_simulation now (reset_simulation now s) = reset_simulation now s
   \<and> reset_simulation later (reset_simulation now s) = reset_simulation later s"
  by (simp add: reset_simulation_def)

text \<open>
  C8. A running tick (with a time step that is not zero) returns, adds exactly
  \<open>error * dt\<close> to the integral whatever the output is, clamped or not, and computes
  the output it returns from the integral already updated.
\<close>

theorem integral_accumulates_unconditionally:
  assumes "simulation_running s" and "dt s \<noteq> 0"
  shows "let error = compute_error (current_heading s) (desired_heading s)
         in \<exists>output s'. update_simulation now s = Inr ((output, error), s')
              \<and> integral s' = integral s + error * dt s
              \<and> output = max (- max_turn_rate s) (min (max_turn_rate s)
                           (kp s * error + ki s * integral s'
                              + kd s * ((error - prev_error s) / dt s)))"
  unfolding Let_def update_simulation_running [OF assms] by simp

theorem integral_accumulates_unconditionally_witness:
  "simulation_running (set_parameters 1 1 0 90 (init 0))
   \<and> dt (set_parameters 1 1 0 90 (init 0)) \<noteq> 0
   \<and> (\<exists>s'. update_simulation 1 (set_parameters 1 1 0 90 (init 0)) = Inr ((45, 90), s')
          \<and> integral s' = 9
          \<and> 45 < kp (set_parameters 1 1 0 90 (init 0)) * 90
                  + ki (set_parameters 1 1 0 90 (init 0)) * integral s')"
proof -
  let ?s = "set_parameters 1 1 0 90 (init 0)"
  have r: "simulation_running ?s" and nz: "dt ?s \<noteq> 0"
    by (simp_all add: set_parameters_def init_def)
  have e: "compute_error (current_heading ?s) (desired_heading ?s) = 90"
    by (simp add: set_parameters_def init_def compute_error_def wrap_above.simps wrap_below.simps)
  have f: "kp ?s = 1" "ki ?s = 1" "kd ?s = 0" "prev_error ?s = 0"
    "integral ?s = 0" "max_turn_rate ?s = 45" "dt ?s = 1 / 10"
    by (simp_all add: set_parameters_def init_def)
  from integral_accumulates_unconditionally [OF r nz, of 1] r nz show ?thesis
    unfolding Let_def e f by auto
qed

text \<open>
  C9. Scenario A: from a running state with \<open>dt = 0.1\<close>, \<open>kp = 1\<close>, \<open>ki = 0\<close>,
  \<open>kd = 0\<close>, a turn-rate limit of 45, a setpoint of 90, heading 0, integral 0 and
  previous error 0, the tick returns the error 90 and the output 45 and leaves the
  heading at 4.5.
\<close>

theorem scenario_A_first_tick:
  assumes "simulation_running s" and "dt s = 1 / 10" and "max_turn_rate s = 45"
    and "kp s = 1" and "ki s = 0" and "kd s = 0"
    and "desired_heading s = 90" and "current_heading s = 0"
    and "integral s = 0" and "prev_error s = 0"
  shows "\<exists>s'. update_simulation now s = Inr ((45, 90), s') \<and> current_heading s' = 9 / 2"
proof -
  have nz: "dt s \<noteq> 0" using assms(2) by simp
  have e: "compute_error 0 90 = 90"
    by (simp add: compute_error_def wrap_above.simps wrap_below.simps)
  have m: "float_mod (9 / 2) 360 = 9 / 2"
    by (simp add: float_mod_def fmod_def)
  show ?thesis
    unfolding update_simulation_running [OF assms(1) nz]
    by (simp add: assms e m)
qed

theorem scenario_A_first_tick_witness:
  "simulation_running (set_parameters 1 0 0 90 (init 0))
   \<and> dt (set_parameters 1 0 0 90 (init 0)) = 1 / 10
   \<and> max_turn_rate (set_parameters 1 0 0 90 (init 0)) = 45
   \<and> kp (set_parameters 1 0 0 90 (init 0)) = 1
   \<and> ki (set_parameters 1 0 0 90 (init 0)) = 0
   \<and> kd (set_parameters 1 0 0 90 (init 0)) = 0
   \<and> desired_heading (set_parameters 1 0 0 90 (init 0)) = 90
   \<and> current_heading (set_parameters 1 0 0 90 (init 0)) = 0
   \<and> integral (set_parameters 1 0 0 90 (init 0)) = 0
   \<and> prev_error (set_parameters 1 0 0 90 (init 0)) = 0
   \<and> (\<exists>s'. update_simulation 1 (set_parameters 1 0 0 90 (init 0)) = Inr ((45, 90), s')
          \<and> current_heading s' = 9 / 2)"
  using scenario_A_first_tick [of "set_parameters 1 0 0 90 (init 0)" 1]
  by (simp add: set_parameters_def init_def)

text \<open>
  C10. Two simulators that differ only in \<^verbatim>\<open>vehicle_width\<close> (the second is the first
  with the field set to any \<open>w\<close>) behave alike on every sequence of operations: both
  raise, or both return the same list of results and states that again differ only in
  that field.
\<close>

theorem vehicle_width_never_read:
  "run_ops xs (s\<lparr>vehicle_width := w\<rparr>) =
     (case run_ops xs s of
        Inl e \<Rightarrow> Inl e
      | Inr (rs, s') \<Rightarrow> Inr (rs, s'\<lparr>vehicle_width := w\<rparr>))"
proof (induction xs arbitrary: s)
  case Nil
  show ?case by simp
next
  case (Cons x xs)
  show ?case
  proof (cases "apply_op x s")
    case (Inl e)
    then show ?thesis by (simp add: apply_op_vehicle_width)
  next
    case (Inr p)
    obtain r s1 where p: "p = (r, s1)" by (cases p)
    show ?thesis
      using Inr Cons.IH [of s1] unfolding p
      by (simp add: apply_op_vehicle_width split: sum.splits)
  qed
qed

end
